theory Spec2Isabelle
  imports Complex_Main
begin

section \<open>The connection normalization of \<open>get_project_info_cohere\<close>\<close>

text \<open>
  The development embeds the part of \<^verbatim>\<open>Backend/query_cohere_main.py\<close> that turns the
  parsed model response into the indexed component/connection lists (lines 222 to 253 of
  \<^verbatim>\<open>get_project_info_cohere\<close>). The exchange with the language model is outside the
  embedding: its outcome is an argument of the embedded function.
\<close>

subsection \<open>Values and exceptions\<close>

text \<open>
  The value that \<^verbatim>\<open>json.loads\<close> returns. An object is an association list in insertion
  order, as a Python dict is. Strings are byte strings; the delimiters the code splits on
  are ASCII, so splitting the UTF-8 bytes and splitting the code points agree.
\<close>

datatype json =
    JNull
  | JBool bool
  | JInt int
  | JFloat real
  | JStr string
  | JArr "json list"
  | JObj "(string \<times> json) list"

text \<open>
  The exceptions the embedded lines can raise. All of them are subclasses of
  \<^verbatim>\<open>Exception\<close>, hence caught by the handler at line 251. \<open>UpstreamError\<close> stands for
  whatever the exchange with the model or \<^verbatim>\<open>json.loads\<close> raised.
\<close>

datatype py_error =
    ValueError
  | KeyError
  | TypeError
  | AttributeError
  | IndexError
  | UpstreamError

subsection \<open>The Python primitives the loop uses\<close>

text \<open>
  \<^verbatim>\<open>s.split(sep)\<close> with a one-character separator: one more part than there are
  separators, empty parts kept.
\<close>

fun split_py :: "char \<Rightarrow> string \<Rightarrow> string list" where
  "split_py sep [] = [[]]"
| "split_py sep (c # cs) =
     (let r = split_py sep cs
      in if c = sep then [] # r else (c # hd r) # tl r)"

text \<open>The tuple assignment \<^verbatim>\<open>a, b = parts\<close>: exactly two parts, or ValueError.\<close>

definition unpack2 :: "'a list \<Rightarrow> py_error + ('a \<times> 'a)" where
  "unpack2 parts = (case parts of [a, b] \<Rightarrow> Inr (a, b) | _ \<Rightarrow> Inl ValueError)"

text \<open>\<^verbatim>\<open>xs.index(x)\<close>: the first position of \<open>x\<close>, or ValueError.\<close>

fun list_index :: "'a list \<Rightarrow> 'a \<Rightarrow> py_error + nat" where
  "list_index [] x = Inl ValueError"
| "list_index (y # ys) x =
     (if y = x then Inr 0
      else (case list_index ys x of Inl e \<Rightarrow> Inl e | Inr i \<Rightarrow> Inr (Suc i)))"

text \<open>\<^verbatim>\<open>xss[i].append(v)\<close>: IndexError when \<open>i\<close> is out of range.\<close>

definition append_at :: "'a list list \<Rightarrow> nat \<Rightarrow> 'a \<Rightarrow> py_error + 'a list list" where
  "append_at xss i v =
     (if i < length xss then Inr (xss[i := xss ! i @ [v]]) else Inl IndexError)"

text \<open>\<^verbatim>\<open>d[k]\<close> and \<^verbatim>\<open>d[k] = v\<close> on a dict: an assignment keeps the position of a key
  that is present and appends a new key.\<close>

definition dict_get :: "(string \<times> json) list \<Rightarrow> string \<Rightarrow> py_error + json" where
  "dict_get d k = (case map_of d k of None \<Rightarrow> Inl KeyError | Some v \<Rightarrow> Inr v)"

fun dict_set :: "string \<Rightarrow> json \<Rightarrow> (string \<times> json) list \<Rightarrow> (string \<times> json) list" where
  "dict_set k v [] = [(k, v)]"
| "dict_set k v (p # ps) = (if fst p = k then (k, v) # ps else p # dict_set k v ps)"

text \<open>
  \<^verbatim>\<open>for connection in v\<close>: a list yields its elements, a string its characters as
  one-character strings, a dict its keys; anything else is not iterable.
\<close>

fun iterate :: "json \<Rightarrow> py_error + json list" where
  "iterate (JArr xs) = Inr xs"
| "iterate (JStr s) = Inr (map (\<lambda>c. JStr [c]) s)"
| "iterate (JObj d) = Inr (map (\<lambda>p. JStr (fst p)) d)"
| "iterate _ = Inl TypeError"

subsection \<open>The loop of lines 225 to 244\<close>

record norm_state =
  all_components :: "string list"
  all_connections :: "string list list"

definition init_state :: norm_state where
  "init_state = \<lparr>all_components = [], all_connections = []\<rparr>"

text \<open>Lines 228 to 231: the two splits with their tuple assignments.\<close>

definition parse_connection :: "string \<Rightarrow> py_error + (string \<times> string \<times> string \<times> string)" where
  "parse_connection connection =
     (case unpack2 (split_py CHR ''$'' connection) of
        Inl e \<Rightarrow> Inl e
      | Inr (connection_point1, connection_point2) \<Rightarrow>
          (case unpack2 (split_py CHR '';'' connection_point1) of
             Inl e \<Rightarrow> Inl e
           | Inr (name1, connector_name1) \<Rightarrow>
               (case unpack2 (split_py CHR '';'' connection_point2) of
                  Inl e \<Rightarrow> Inl e
                | Inr (name2, connector_name2) \<Rightarrow>
                    Inr (name1, connector_name1, name2, connector_name2))))"

text \<open>Lines 233 to 235 (and 237 to 239): a name not seen yet gets the next index.\<close>

definition register :: "string \<Rightarrow> norm_state \<Rightarrow> norm_state" where
  "register name st =
     (if name \<notin> set (all_components st)
      then st\<lparr>all_components := all_components st @ [name],
              all_connections := all_connections st @ [[]]\<rparr>
      else st)"

text \<open>Line 243 (and 244): the label goes to the list at the name's index.\<close>

definition append_label :: "string \<Rightarrow> string \<Rightarrow> norm_state \<Rightarrow> py_error + norm_state" where
  "append_label name combo_name st =
     (case list_index (all_components st) name of
        Inl e \<Rightarrow> Inl e
      | Inr i \<Rightarrow>
          (case append_at (all_connections st) i combo_name of
             Inl e \<Rightarrow> Inl e
           | Inr conns \<Rightarrow> Inr (st\<lparr>all_connections := conns\<rparr>)))"

text \<open>Lines 233 to 244 for one parsed connection.\<close>

fun add_connection ::
  "norm_state \<Rightarrow> string \<times> string \<times> string \<times> string \<Rightarrow> py_error + norm_state" where
  "add_connection st (name1, connector_name1, name2, connector_name2) =
     (let st2 = register name2 (register name1 st);
          combo_name = connector_name1 @ ''/'' @ connector_name2
      in case append_label name1 combo_name st2 of
           Inl e \<Rightarrow> Inl e
         | Inr st3 \<Rightarrow> append_label name2 combo_name st3)"

text \<open>One iteration: an element that is not a string has no \<^verbatim>\<open>split\<close>.\<close>

fun process_connection :: "norm_state \<Rightarrow> json \<Rightarrow> py_error + norm_state" where
  "process_connection st (JStr connection) =
     (case parse_connection connection of
        Inl e \<Rightarrow> Inl e
      | Inr q \<Rightarrow> add_connection st q)"
| "process_connection st _ = Inl AttributeError"

text \<open>The \<^verbatim>\<open>for\<close> loop: the first exception ends it.\<close>

fun connections_loop :: "norm_state \<Rightarrow> json list \<Rightarrow> py_error + norm_state" where
  "connections_loop st [] = Inr st"
| "connections_loop st (c # cs) =
     (case process_connection st c of
        Inl e \<Rightarrow> Inl e
      | Inr st' \<Rightarrow> connections_loop st' cs)"

subsection \<open>The function\<close>

text \<open>
  Lines 222 to 249 on the parsed response \<open>resp1\<close>: subscripting anything but a dict with
  a string is a TypeError; the two fields are assigned only after the loop has finished.
\<close>

fun normalize_response :: "json \<Rightarrow> py_error + json" where
  "normalize_response (JObj resp1) =
     (case dict_get resp1 ''connections'' of
        Inl e \<Rightarrow> Inl e
      | Inr v \<Rightarrow>
          (case iterate v of
             Inl e \<Rightarrow> Inl e
           | Inr cs \<Rightarrow>
               (case connections_loop init_state cs of
                  Inl e \<Rightarrow> Inl e
                | Inr st \<Rightarrow>
                    Inr (JObj
                      (dict_set ''components'' (JArr (map JStr (all_components st)))
                        (dict_set ''connections''
                           (JArr (map (\<lambda>ls. JArr (map JStr ls)) (all_connections st)))
                           resp1))))))"
| "normalize_response _ = Inl TypeError"

text \<open>
  \<^verbatim>\<open>get_project_info_cohere\<close> from the end of the exchange with the model: \<open>upstream\<close> is
  \<open>Inr\<close> of the parsed response, or \<open>Inl\<close> of the exception that the exchange or
  \<^verbatim>\<open>json.loads\<close> raised inside the \<^verbatim>\<open>try\<close> block. A result \<open>Inl e\<close> is the return of the
  handler at line 253, the fresh dict \<^verbatim>\<open>{"error": str(e)}\<close>; a result \<open>Inr\<close> is the
  return of line 249.
\<close>

definition get_project_info_cohere :: "py_error + json \<Rightarrow> py_error + json" where
  "get_project_info_cohere upstream =
     (case upstream of Inl e \<Rightarrow> Inl e | Inr resp1 \<Rightarrow> normalize_response resp1)"

text \<open>The loop on a list of raw connection strings, from the empty lists of lines 225 and 226.\<close>

definition normalize :: "string list \<Rightarrow> py_error + norm_state" where
  "normalize cs = connections_loop init_state (map JStr cs)"

subsection \<open>The notions the properties are stated with\<close>

text \<open>
  These definitions are not code of the repository. They say, in the words of the
  specification, what a well-formed raw connection is, which names and pair-labels it
  carries, and what first-seen order is; the properties below compare the code with them.
\<close>

text \<open>
  The input contract of the normalizer: a raw connection has exactly one \<open>$\<close>, and each of
  the two connection points it separates has exactly one \<open>;\<close>. (The part from the \<open>$\<close> on
  has the semicolons of the second point.)
\<close>

definition well_formed :: "string \<Rightarrow> bool" where
  "well_formed s =
     (count_list s CHR ''$'' = 1 \<and>
      count_list (takeWhile (\<lambda>c. c \<noteq> CHR ''$'') s) CHR '';'' = 1 \<and>
      count_list (dropWhile (\<lambda>c. c \<noteq> CHR ''$'') s) CHR '';'' = 1)"

text \<open>The part of a string before the first separator, and the part after it.\<close>

definition before :: "char \<Rightarrow> string \<Rightarrow> string" where
  "before sep s = takeWhile (\<lambda>c. c \<noteq> sep) s"

definition after :: "char \<Rightarrow> string \<Rightarrow> string" where
  "after sep s = tl (dropWhile (\<lambda>c. c \<noteq> sep) s)"

text \<open>
  The four fields of the wire format \<^verbatim>\<open><component>;<connector>$<component>;<connector>\<close>,
  read off the string without the code's splits.
\<close>

definition fields :: "string \<Rightarrow> string \<times> string \<times> string \<times> string" where
  "fields s =
     (let point1 = before CHR ''$'' s; point2 = after CHR ''$'' s
      in (before CHR '';'' point1, after CHR '';'' point1,
          before CHR '';'' point2, after CHR '';'' point2))"

text \<open>The distinct elements of a sequence, each at the place of its first occurrence.\<close>

definition first_seen :: "'a list \<Rightarrow> 'a list" where
  "first_seen xs = rev (remdups (rev xs))"

text \<open>The position of the first occurrence of \<open>x\<close> (the length, when there is none).\<close>

definition first_pos :: "'a list \<Rightarrow> 'a \<Rightarrow> nat" where
  "first_pos xs x = length (takeWhile (\<lambda>y. y \<noteq> x) xs)"

text \<open>The two component-instance names of a connection, in the order of the string.\<close>

fun endpoints :: "string \<times> string \<times> string \<times> string \<Rightarrow> string list" where
  "endpoints (n1, l1, n2, l2) = [n1, n2]"

text \<open>
  The pair-labels that one connection contributes to component instance \<open>a\<close>: one for each
  of its endpoints that names \<open>a\<close>.
\<close>

fun incident :: "string \<Rightarrow> string \<times> string \<times> string \<times> string \<Rightarrow> string list" where
  "incident a (n1, l1, n2, l2) =
     (if n1 = a then [l1 @ ''/'' @ l2] else []) @ (if n2 = a then [l1 @ ''/'' @ l2] else [])"

text \<open>The names referenced by a list of raw connections, in document order.\<close>

definition names :: "string list \<Rightarrow> string list" where
  "names cs = concat (map (\<lambda>c. endpoints (fields c)) cs)"

text \<open>The pair-labels incident to \<open>a\<close>, in the order of the raw connections.\<close>

definition labels_of :: "string list \<Rightarrow> string \<Rightarrow> string list" where
  "labels_of cs a = concat (map (\<lambda>c. incident a (fields c)) cs)"

text \<open>A name or connector label that contains neither delimiter (it may be empty).\<close>

definition plain :: "string \<Rightarrow> bool" where
  "plain s = (CHR ''$'' \<notin> set s \<and> CHR '';'' \<notin> set s)"

text \<open>The raw connection string of the wire format with the given four fields.\<close>

definition raw_connection :: "string \<Rightarrow> string \<Rightarrow> string \<Rightarrow> string \<Rightarrow> string" where
  "raw_connection n1 l1 n2 l2 = n1 @ '';'' @ l1 @ ''$'' @ n2 @ '';'' @ l2"

section \<open>Properties\<close>

subsection \<open>Splitting and parsing\<close>

lemma split_py_not_Nil: "split_py sep s \<noteq> []"
  by (induction s) (auto simp: Let_def)

lemma length_split_py: "length (split_py sep s) = Suc (count_list s sep)"
proof (induction s)
  case Nil
  then show ?case by simp
next
  case (Cons c cs)
  have "split_py sep cs \<noteq> []" by (rule split_py_not_Nil)
  then have "length (tl (split_py sep cs)) = count_list cs sep"
    using Cons by (cases "split_py sep cs") auto
  with Cons show ?case by (simp add: Let_def)
qed

lemma split_py_no_sep: "sep \<notin> set s \<Longrightarrow> split_py sep s = [s]"
  by (induction s) (auto simp: Let_def)

lemma split_py_one:
  "count_list s sep = 1 \<Longrightarrow> split_py sep s = [before sep s, after sep s]"
proof (induction s)
  case Nil
  then show ?case by simp
next
  case (Cons c cs)
  show ?case
  proof (cases "c = sep")
    case True
    with Cons.prems have "count_list cs sep = 0" by simp
    have "sep \<notin> set cs" using \<open>count_list cs sep = 0\<close> by (simp add: count_list_0_iff)
    then have "split_py sep cs = [cs]" by (rule split_py_no_sep)
    with True show ?thesis by (simp add: Let_def before_def after_def)
  next
    case False
    with Cons.prems have "count_list cs sep = 1" by simp
    then have "split_py sep cs = [before sep cs, after sep cs]" by (rule Cons.IH)
    with False show ?thesis by (simp add: Let_def before_def after_def)
  qed
qed

lemma unpack2_Inr_iff: "(\<exists>p. unpack2 xs = Inr p) \<longleftrightarrow> length xs = 2"
  by (auto simp: unpack2_def split: list.splits)

lemma unpack2_Inl: "unpack2 xs = Inl e \<Longrightarrow> e = ValueError \<and> length xs \<noteq> 2"
  by (auto simp: unpack2_def split: list.splits)

lemma unpack2_two: "unpack2 [a, b] = Inr (a, b)"
  by (simp add: unpack2_def)

lemma unpack2_split_one:
  "count_list s sep = 1 \<Longrightarrow> unpack2 (split_py sep s) = Inr (before sep s, after sep s)"
  by (simp add: split_py_one unpack2_two)

lemma unpack2_split_other:
  "count_list s sep \<noteq> 1 \<Longrightarrow> unpack2 (split_py sep s) = Inl ValueError"
proof -
  assume a: "count_list s sep \<noteq> 1"
  have "length (split_py sep s) \<noteq> 2" using a by (simp add: length_split_py)
  then have "\<not> (\<exists>p. unpack2 (split_py sep s) = Inr p)"
    using unpack2_Inr_iff [of "split_py sep s"] by blast
  then show ?thesis using unpack2_Inl by (cases "unpack2 (split_py sep s)") auto
qed

lemma count_after: "c \<noteq> sep \<Longrightarrow> count_list (after sep s) c = count_list (dropWhile (\<lambda>x. x \<noteq> sep) s) c"
  by (induction s) (auto simp: after_def)

lemma parse_connection_well_formed:
  "well_formed s \<Longrightarrow> parse_connection s = Inr (fields s)"
  by (simp add: well_formed_def parse_connection_def fields_def unpack2_split_one
      before_def [symmetric] count_after [symmetric] Let_def)

lemma parse_connection_malformed:
  "\<not> well_formed s \<Longrightarrow> parse_connection s = Inl ValueError"
proof -
  assume a: "\<not> well_formed s"
  show ?thesis
  proof (cases "count_list s CHR ''$'' = 1")
    case False
    then show ?thesis by (simp add: parse_connection_def unpack2_split_other)
  next
    case d: True
    show ?thesis
    proof (cases "count_list (before CHR ''$'' s) CHR '';'' = 1")
      case False
      with d show ?thesis by (simp add: parse_connection_def unpack2_split_one unpack2_split_other)
    next
      case True
      with a d have "count_list (after CHR ''$'' s) CHR '';'' \<noteq> 1"
        by (simp add: well_formed_def before_def count_after)
      with d True show ?thesis
        by (simp add: parse_connection_def unpack2_split_one unpack2_split_other)
    qed
  qed
qed

subsection \<open>One iteration on parallel lists\<close>

lemma first_seen_snoc:
  "first_seen (xs @ [x]) = (if x \<in> set xs then first_seen xs else first_seen xs @ [x])"
  by (simp add: first_seen_def)

lemma set_first_seen: "set (first_seen xs) = set xs"
  by (simp add: first_seen_def)

lemma distinct_first_seen: "distinct (first_seen xs)"
  by (simp add: first_seen_def)

lemma list_index_mem:
  "x \<in> set xs \<Longrightarrow> \<exists>i. list_index xs x = Inr i \<and> i < length xs \<and> xs ! i = x"
  by (induction xs) auto

lemma map_upd_distinct:
  assumes "distinct xs" "i < length xs"
  shows "(map f xs)[i := v] = map (f(xs ! i := v)) xs"
proof (rule nth_equalityI)
  show "length ((map f xs)[i := v]) = length (map (f(xs ! i := v)) xs)" by simp
next
  fix k assume "k < length ((map f xs)[i := v])"
  then have k: "k < length xs" by simp
  show "(map f xs)[i := v] ! k = map (f(xs ! i := v)) xs ! k"
  proof (cases "k = i")
    case True
    with k show ?thesis by simp
  next
    case False
    with assms k have "xs ! k \<noteq> xs ! i" by (simp add: nth_eq_iff_index_eq)
    with False k show ?thesis by simp
  qed
qed

lemma append_label_map:
  assumes "distinct comps" "name \<in> set comps"
  shows "append_label name l \<lparr>all_components = comps, all_connections = map f comps\<rparr> =
         Inr \<lparr>all_components = comps,
              all_connections = map (f(name := f name @ [l])) comps\<rparr>"
proof -
  have "\<exists>i. list_index comps name = Inr i \<and> i < length comps \<and> comps ! i = name"
    by (rule list_index_mem [OF assms(2)])
  then obtain i where i: "list_index comps name = Inr i" "i < length comps" "comps ! i = name"
    by (elim exE conjE)
  have "(map f comps)[i := f (comps ! i) @ [l]] = map (f(comps ! i := f (comps ! i) @ [l])) comps"
    by (rule map_upd_distinct [OF assms(1) i(2)])
  then have u: "(map f comps)[i := f name @ [l]] = map (f(name := f name @ [l])) comps"
    by (simp only: i(3))
  have "append_at (map f comps) i l = Inr ((map f comps)[i := f name @ [l]])"
    using i(2) i(3) by (simp add: append_at_def)
  then show ?thesis by (simp add: append_label_def i(1) u)
qed

lemma register_map:
  assumes "\<forall>a. a \<notin> set comps \<longrightarrow> f a = []"
  shows "register name \<lparr>all_components = comps, all_connections = map f comps\<rparr> =
         \<lparr>all_components = (if name \<in> set comps then comps else comps @ [name]),
          all_connections = map f (if name \<in> set comps then comps else comps @ [name])\<rparr>"
  using assms by (simp add: register_def)

lemma add_connection_map:
  assumes "\<forall>a. a \<notin> set ns \<longrightarrow> f a = []"
  shows "add_connection \<lparr>all_components = first_seen ns, all_connections = map f (first_seen ns)\<rparr> q =
         Inr \<lparr>all_components = first_seen (ns @ endpoints q),
              all_connections = map (\<lambda>a. f a @ incident a q) (first_seen (ns @ endpoints q))\<rparr>"
proof -
  obtain n1 l1 n2 l2 where q: "q = (n1, l1, n2, l2)" by (cases q) auto
  let ?c1 = "first_seen (ns @ [n1])"
  let ?c2 = "first_seen (ns @ [n1, n2])"
  let ?l = "l1 @ ''/'' @ l2"
  have f0: "\<forall>a. a \<notin> set (first_seen ns) \<longrightarrow> f a = []" using assms by (simp add: set_first_seen)
  have r1: "register n1 \<lparr>all_components = first_seen ns, all_connections = map f (first_seen ns)\<rparr> =
        \<lparr>all_components = ?c1, all_connections = map f ?c1\<rparr>"
    using register_map [OF f0, of n1] by (simp add: first_seen_snoc set_first_seen)
  have f1: "\<forall>a. a \<notin> set ?c1 \<longrightarrow> f a = []" using assms by (simp add: set_first_seen)
  have "ns @ [n1, n2] = (ns @ [n1]) @ [n2]" by simp
  then have c2: "?c2 = (if n2 \<in> set ?c1 then ?c1 else ?c1 @ [n2])"
    by (simp only: first_seen_snoc [of "ns @ [n1]" n2] set_first_seen)
  have r2: "register n2 \<lparr>all_components = ?c1, all_connections = map f ?c1\<rparr> =
        \<lparr>all_components = ?c2, all_connections = map f ?c2\<rparr>"
    using register_map [OF f1, of n2] c2 by simp
  have d: "distinct ?c2" by (rule distinct_first_seen)
  have m1: "n1 \<in> set ?c2" and m2: "n2 \<in> set ?c2" by (simp_all add: set_first_seen)
  let ?g = "f(n1 := f n1 @ [?l])"
  have a1: "append_label n1 ?l \<lparr>all_components = ?c2, all_connections = map f ?c2\<rparr> =
        Inr \<lparr>all_components = ?c2, all_connections = map ?g ?c2\<rparr>"
    by (rule append_label_map [OF d m1])
  have a2: "append_label n2 ?l \<lparr>all_components = ?c2, all_connections = map ?g ?c2\<rparr> =
        Inr \<lparr>all_components = ?c2, all_connections = map (?g(n2 := ?g n2 @ [?l])) ?c2\<rparr>"
    by (rule append_label_map [OF d m2])
  have g: "?g(n2 := ?g n2 @ [?l]) = (\<lambda>a. f a @ incident a q)"
    by (rule ext) (simp add: q)
  show ?thesis
    unfolding q add_connection.simps Let_def r1 r2 a1 sum.case a2 g [unfolded q] endpoints.simps
    by (rule refl)
qed

subsection \<open>The loop in closed form\<close>

lemma names_Cons: "names (c # cs) = endpoints (fields c) @ names cs"
  by (simp add: names_def)

lemma labels_of_Cons: "labels_of (c # cs) a = incident a (fields c) @ labels_of cs a"
  by (simp add: labels_of_def)

lemma connections_loop_map:
  assumes "\<forall>c \<in> set cs. well_formed c" "\<forall>a. a \<notin> set ns \<longrightarrow> f a = []"
  shows "connections_loop \<lparr>all_components = first_seen ns, all_connections = map f (first_seen ns)\<rparr>
           (map JStr cs) =
         Inr \<lparr>all_components = first_seen (ns @ names cs),
              all_connections = map (\<lambda>a. f a @ labels_of cs a) (first_seen (ns @ names cs))\<rparr>"
  using assms
proof (induction cs arbitrary: ns f)
  case Nil
  then show ?case by (simp add: names_def labels_of_def)
next
  case (Cons c cs)
  let ?q = "fields c"
  let ?f' = "\<lambda>a. f a @ incident a ?q"
  have wf: "well_formed c" using Cons.prems(1) by simp
  have step: "process_connection \<lparr>all_components = first_seen ns, all_connections = map f (first_seen ns)\<rparr> (JStr c) =
        Inr \<lparr>all_components = first_seen (ns @ endpoints ?q),
             all_connections = map ?f' (first_seen (ns @ endpoints ?q))\<rparr>"
    using add_connection_map [OF Cons.prems(2), of ?q] by (simp add: parse_connection_well_formed [OF wf])
  have f': "\<forall>a. a \<notin> set (ns @ endpoints ?q) \<longrightarrow> ?f' a = []"
    using Cons.prems(2) by (cases ?q) auto
  have rest: "\<forall>c \<in> set cs. well_formed c" using Cons.prems(1) by simp
  have ih: "connections_loop \<lparr>all_components = first_seen (ns @ endpoints ?q),
             all_connections = map ?f' (first_seen (ns @ endpoints ?q))\<rparr> (map JStr cs) =
        Inr \<lparr>all_components = first_seen ((ns @ endpoints ?q) @ names cs),
             all_connections = map (\<lambda>a. ?f' a @ labels_of cs a) (first_seen ((ns @ endpoints ?q) @ names cs))\<rparr>"
    by (rule Cons.IH [OF rest f'])
  show ?case
    by (simp only: list.map connections_loop.simps step sum.case ih names_Cons labels_of_Cons
        append_assoc)
qed

lemma normalize_closed:
  assumes "\<forall>c \<in> set cs. well_formed c"
  shows "normalize cs =
         Inr \<lparr>all_components = first_seen (names cs),
              all_connections = map (labels_of cs) (first_seen (names cs))\<rparr>"
  using connections_loop_map [OF assms, of "[]" "\<lambda>a. []"]
  by (simp add: normalize_def init_state_def first_seen_def)

lemma connections_loop_append:
  "connections_loop st (xs @ ys) =
     (case connections_loop st xs of Inl e \<Rightarrow> Inl e | Inr st' \<Rightarrow> connections_loop st' ys)"
  by (induction xs arbitrary: st) (auto split: sum.splits)

subsection \<open>Positions, the wire format, counting\<close>

lemma first_pos_less: "x \<in> set xs \<Longrightarrow> first_pos xs x < length xs"
  unfolding first_pos_def by (induction xs) auto

lemma nth_first_pos: "x \<in> set xs \<Longrightarrow> xs ! first_pos xs x = x"
  unfolding first_pos_def by (induction xs) auto

lemma list_index_first_pos: "x \<in> set xs \<Longrightarrow> list_index xs x = Inr (first_pos xs x)"
  unfolding first_pos_def by (induction xs) auto

lemma before_append: "sep \<notin> set a \<Longrightarrow> before sep (a @ sep # b) = a"
  unfolding before_def by (induction a) auto

lemma before_plain: "sep \<notin> set a \<Longrightarrow> before sep a = a"
  unfolding before_def by (induction a) auto

lemma after_append: "sep \<notin> set a \<Longrightarrow> after sep (a @ sep # b) = b"
  unfolding after_def by (induction a) auto

lemma fields_raw_connection:
  assumes "plain n1" "plain l1" "plain n2" "plain l2"
  shows "fields (raw_connection n1 l1 n2 l2) = (n1, l1, n2, l2)"
proof -
  have s: "raw_connection n1 l1 n2 l2 = (n1 @ '';'' @ l1) @ CHR ''$'' # (n2 @ '';'' @ l2)"
    by (simp add: raw_connection_def)
  have d: "CHR ''$'' \<notin> set (n1 @ '';'' @ l1)" using assms by (simp add: plain_def)
  have b: "before CHR ''$'' (raw_connection n1 l1 n2 l2) = n1 @ CHR '';'' # l1"
    unfolding s using before_append [OF d] by simp
  have a: "after CHR ''$'' (raw_connection n1 l1 n2 l2) = n2 @ CHR '';'' # l2"
    unfolding s using after_append [OF d] by simp
  have "CHR '';'' \<notin> set n1" "CHR '';'' \<notin> set n2" using assms by (simp_all add: plain_def)
  then show ?thesis
    by (simp add: fields_def Let_def a b before_append after_append)
qed

lemma well_formed_raw_connection:
  assumes "plain n1" "plain l1" "plain n2" "plain l2"
  shows "well_formed (raw_connection n1 l1 n2 l2)"
proof -
  have s: "raw_connection n1 l1 n2 l2 = (n1 @ '';'' @ l1) @ CHR ''$'' # (n2 @ '';'' @ l2)"
    by (simp add: raw_connection_def)
  have d: "CHR ''$'' \<notin> set (n1 @ '';'' @ l1)" using assms by (simp add: plain_def)
  have b: "before CHR ''$'' (raw_connection n1 l1 n2 l2) = n1 @ CHR '';'' # l1"
    unfolding s using before_append [OF d] by simp
  have a: "after CHR ''$'' (raw_connection n1 l1 n2 l2) = n2 @ CHR '';'' # l2"
    unfolding s using after_append [OF d] by simp
  have c: "count_list (raw_connection n1 l1 n2 l2) CHR ''$'' = 1"
    using assms by (simp add: raw_connection_def plain_def count_list_0_iff)
  have "count_list (before CHR ''$'' (raw_connection n1 l1 n2 l2)) CHR '';'' = 1"
    unfolding b using assms by (simp add: plain_def count_list_0_iff)
  moreover have "count_list (after CHR ''$'' (raw_connection n1 l1 n2 l2)) CHR '';'' = 1"
    unfolding a using assms by (simp add: plain_def count_list_0_iff)
  ultimately show ?thesis using c
    by (simp add: well_formed_def before_def [symmetric] count_after [symmetric])
qed

lemma sum_indicator:
  assumes "distinct xs" "x \<in> set xs"
  shows "sum_list (map (\<lambda>a. if x = a then 1 else 0) xs) = (1::nat)"
  using assms by (induction xs) auto

lemma length_incident:
  "length (incident a (n1, l1, n2, l2)) = (if n1 = a then 1 else 0) + (if n2 = a then 1 else 0)"
  by simp

lemma sum_incident:
  assumes "distinct xs" "set (endpoints q) \<subseteq> set xs"
  shows "sum_list (map (\<lambda>a. length (incident a q)) xs) = 2"
proof -
  obtain n1 l1 n2 l2 where q: "q = (n1, l1, n2, l2)" by (cases q) auto
  have m: "n1 \<in> set xs" "n2 \<in> set xs" using assms(2) by (simp_all add: q)
  have "sum_list (map (\<lambda>a. length (incident a q)) xs) =
        sum_list (map (\<lambda>a. (if n1 = a then 1 else 0) + (if n2 = a then 1 else 0)) xs)"
    unfolding q length_incident ..
  also have "\<dots> = sum_list (map (\<lambda>a. if n1 = a then 1 else 0) xs) +
                   sum_list (map (\<lambda>a. if n2 = a then 1 else 0) xs)"
    by (rule sum_list_addf)
  also have "\<dots> = 2" using sum_indicator [OF assms(1)] m by simp
  finally show ?thesis .
qed

lemma sum_labels_of:
  assumes "distinct xs" "set (names cs) \<subseteq> set xs"
  shows "sum_list (map (\<lambda>a. length (labels_of cs a)) xs) = 2 * length cs"
  using assms(2)
proof (induction cs)
  case Nil
  then show ?case by (simp add: labels_of_def)
next
  case (Cons c cs)
  have e: "set (endpoints (fields c)) \<subseteq> set xs" and r: "set (names cs) \<subseteq> set xs"
    using Cons.prems by (simp_all add: names_Cons)
  have "sum_list (map (\<lambda>a. length (labels_of (c # cs) a)) xs) =
        sum_list (map (\<lambda>a. length (incident a (fields c)) + length (labels_of cs a)) xs)"
    by (simp add: labels_of_Cons)
  also have "\<dots> = sum_list (map (\<lambda>a. length (incident a (fields c))) xs) +
                   sum_list (map (\<lambda>a. length (labels_of cs a)) xs)"
    by (rule sum_list_addf)
  also have "\<dots> = 2 + 2 * length cs"
    using sum_incident [OF assms(1) e] Cons.IH [OF r] by simp
  finally show ?case by simp
qed

lemma first_pos_snoc: "x \<in> set xs \<Longrightarrow> first_pos (xs @ ys) x = first_pos xs x"
  unfolding first_pos_def by (induction xs) auto

lemma first_pos_snoc_new: "x \<notin> set xs \<Longrightarrow> first_pos (xs @ [x]) x = length xs"
  unfolding first_pos_def by (induction xs) auto

lemma first_seen_sorted:
  "sorted_wrt (\<lambda>a b. first_pos xs a < first_pos xs b) (first_seen xs)"
proof (induction xs rule: rev_induct)
  case Nil
  then show ?case by (simp add: first_seen_def)
next
  case (snoc x xs)
  have old: "sorted_wrt (\<lambda>a b. first_pos (xs @ [x]) a < first_pos (xs @ [x]) b) (first_seen xs)"
  proof (rule sorted_wrt_mono_rel [OF _ snoc.IH])
    fix a b assume "a \<in> set (first_seen xs)" "b \<in> set (first_seen xs)"
      "first_pos xs a < first_pos xs b"
    then show "first_pos (xs @ [x]) a < first_pos (xs @ [x]) b"
      by (simp add: set_first_seen first_pos_snoc)
  qed
  show ?case
  proof (cases "x \<in> set xs")
    case True
    with old show ?thesis by (simp add: first_seen_snoc)
  next
    case False
    have "\<forall>a \<in> set (first_seen xs). first_pos (xs @ [x]) a < first_pos (xs @ [x]) x"
      using False by (simp add: set_first_seen first_pos_snoc first_pos_snoc_new first_pos_less)
    with old False show ?thesis by (simp add: first_seen_snoc sorted_wrt_append)
  qed
qed

subsection \<open>Assignments to a dict\<close>

lemma map_of_dict_set: "map_of (dict_set k v d) k' = (if k' = k then Some v else map_of d k')"
  by (induction d) auto

lemma filter_dict_set:
  "\<forall>p. P p \<longrightarrow> fst p \<noteq> k \<Longrightarrow> filter P (dict_set k v d) = filter P d"
  by (induction d) auto

lemma count_list_concat_ge:
  assumes "l \<in> set (g c)"
  shows "count_list cs c \<le> count_list (concat (map g cs)) l"
proof (induction cs)
  case Nil
  then show ?case by simp
next
  case (Cons x xs)
  have "x = c \<Longrightarrow> 1 \<le> count_list (g x) l"
    using assms by (metis count_list_0_iff not_less_eq_eq le_0_eq One_nat_def)
  with Cons show ?case by (auto simp: count_list_append)
qed

subsection \<open>The whole function on a response with a list of raw connections\<close>

lemma normalize_response_ok:
  assumes "map_of resp1 ''connections'' = Some (JArr (map JStr cs))" "normalize cs = Inr st"
  shows "get_project_info_cohere (Inr (JObj resp1)) =
         Inr (JObj (dict_set ''components'' (JArr (map JStr (all_components st)))
                (dict_set ''connections''
                   (JArr (map (\<lambda>ls. JArr (map JStr ls)) (all_connections st))) resp1)))"
  using assms by (simp add: get_project_info_cohere_def dict_get_def normalize_def)

lemma normalize_response_error:
  assumes "map_of resp1 ''connections'' = Some (JArr (map JStr cs))" "normalize cs = Inl e"
  shows "get_project_info_cohere (Inr (JObj resp1)) = Inl e"
  using assms by (simp add: get_project_info_cohere_def dict_get_def normalize_def)

lemma normalize_single:
  assumes "plain n1" "plain l1" "plain n2" "plain l2"
  shows "normalize [raw_connection n1 l1 n2 l2] =
         Inr \<lparr>all_components = first_seen [n1, n2],
              all_connections = map (\<lambda>a. incident a (n1, l1, n2, l2)) (first_seen [n1, n2])\<rparr>"
proof -
  have w: "\<forall>c \<in> set [raw_connection n1 l1 n2 l2]. well_formed c"
    using well_formed_raw_connection [OF assms] by simp
  show ?thesis
    using normalize_closed [OF w]
    by (simp add: names_def labels_of_def fields_raw_connection [OF assms])
qed

lemma normalize_malformed:
  assumes "\<exists>c \<in> set cs. \<not> well_formed c"
  shows "normalize cs = Inl ValueError"
proof -
  from assms obtain pre bad post where
    s: "cs = pre @ bad # post" and b: "\<not> well_formed bad" and p: "\<forall>c \<in> set pre. well_formed c"
    using split_list_first_prop [of cs "\<lambda>c. \<not> well_formed c"] by auto
  obtain st where st: "connections_loop init_state (map JStr pre) = Inr st"
    using normalize_closed [OF p] by (simp add: normalize_def)
  have "process_connection st (JStr bad) = Inl ValueError"
    by (simp add: parse_connection_malformed [OF b])
  then show ?thesis
    by (simp add: normalize_def s connections_loop_append st del: process_connection.simps)
qed

lemma count_labels_of_ge:
  assumes "l \<in> set (incident a (fields c))"
  shows "count_list cs c \<le> count_list (labels_of cs a) l"
  unfolding labels_of_def
  using count_list_concat_ge [of l "\<lambda>c. incident a (fields c)" c cs] assms by simp

section \<open>The claims\<close>

text \<open>
  Claim C1. For every well-formed raw connections list of length \<open>n\<close>, the loop returns
  a components list without duplicates that holds exactly the names referenced by the
  entries, so its length is the number of distinct names; the connections list is
  parallel to it, and the list of each component is the sequence of the pair-labels of
  the connections incident to it. Each raw connection has its two endpoints among the
  components and contributes to the list of a component one label for each of its
  endpoints that names the component, two labels over all components; so the lengths of
  the lists in the connections output add up to \<open>2 * n\<close>.
\<close>

theorem components_distinct_labels_twice:
  assumes "\<forall>c \<in> set cs. well_formed c"
  shows "\<exists>st. normalize cs = Inr st \<and>
              distinct (all_components st) \<and>
              set (all_components st) = set (names cs) \<and>
              length (all_components st) = card (set (names cs)) \<and>
              length (all_connections st) = length (all_components st) \<and>
              (\<forall>i < length (all_components st).
                 all_connections st ! i = labels_of cs (all_components st ! i)) \<and>
              (\<forall>c \<in> set cs.
                 set (endpoints (fields c)) \<subseteq> set (all_components st) \<and>
                 (\<forall>a. length (incident a (fields c)) = count_list (endpoints (fields c)) a) \<and>
                 sum_list (map (\<lambda>a. length (incident a (fields c))) (all_components st)) = 2) \<and>
              sum_list (map length (all_connections st)) = 2 * length cs"
proof -
  let ?comps = "first_seen (names cs)"
  let ?st = "\<lparr>all_components = ?comps, all_connections = map (labels_of cs) ?comps\<rparr>"
  have n: "normalize cs = Inr ?st" by (rule normalize_closed [OF assms])
  have d: "distinct (all_components ?st)" by (simp add: distinct_first_seen)
  have e: "set (all_components ?st) = set (names cs)" by (simp add: set_first_seen)
  have "card (set ?comps) = length ?comps" by (rule distinct_card [OF distinct_first_seen])
  then have l: "length (all_components ?st) = card (set (names cs))"
    by (simp add: set_first_seen)
  have p: "length (all_connections ?st) = length (all_components ?st)" by simp
  have q: "\<forall>i < length (all_components ?st).
      all_connections ?st ! i = labels_of cs (all_components ?st ! i)" by simp
  have r: "\<forall>c \<in> set cs.
      set (endpoints (fields c)) \<subseteq> set (all_components ?st) \<and>
      (\<forall>a. length (incident a (fields c)) = count_list (endpoints (fields c)) a) \<and>
      sum_list (map (\<lambda>a. length (incident a (fields c))) (all_components ?st)) = 2"
  proof
    fix c assume c: "c \<in> set cs"
    have s1: "set (endpoints (fields c)) \<subseteq> set ?comps"
      using c by (auto simp: set_first_seen names_def)
    have s2: "\<forall>a. length (incident a (fields c)) = count_list (endpoints (fields c)) a"
      by (cases "fields c") simp
    have s3: "sum_list (map (\<lambda>a. length (incident a (fields c))) ?comps) = 2"
      by (rule sum_incident [OF distinct_first_seen s1])
    show "set (endpoints (fields c)) \<subseteq> set (all_components ?st) \<and>
      (\<forall>a. length (incident a (fields c)) = count_list (endpoints (fields c)) a) \<and>
      sum_list (map (\<lambda>a. length (incident a (fields c))) (all_components ?st)) = 2"
      using s1 s2 s3 by simp
  qed
  have "sum_list (map (\<lambda>a. length (labels_of cs a)) ?comps) = 2 * length cs"
    by (rule sum_labels_of [OF distinct_first_seen]) (simp add: set_first_seen)
  then have s: "sum_list (map length (all_connections ?st)) = 2 * length cs"
    by (simp add: comp_def)
  show ?thesis
    by (rule exI [of _ ?st]) (intro conjI n d e l p q r s)
qed

theorem components_distinct_labels_twice_witness:
  "well_formed ''A;x$B;y'' \<and> well_formed ''C;z$A;w'' \<and>
   normalize [''A;x$B;y'', ''C;z$A;w''] =
     Inr \<lparr>all_components = [''A'', ''B'', ''C''],
          all_connections = [[''x/y'', ''z/w''], [''x/y''], [''z/w'']]\<rparr> \<and>
   card (set (names [''A;x$B;y'', ''C;z$A;w''])) = 3 \<and>
   labels_of [''A;x$B;y'', ''C;z$A;w''] ''A'' = [''x/y'', ''z/w''] \<and>
   labels_of [''A;x$B;y'', ''C;z$A;w''] ''B'' = [''x/y''] \<and>
   labels_of [''A;x$B;y'', ''C;z$A;w''] ''C'' = [''z/w''] \<and>
   (\<exists>st. normalize [''A;x$B;y'', ''C;z$A;w''] = Inr st \<and>
         distinct (all_components st) \<and>
         set (all_components st) = set (names [''A;x$B;y'', ''C;z$A;w'']) \<and>
         length (all_components st) = card (set (names [''A;x$B;y'', ''C;z$A;w''])) \<and>
         length (all_connections st) = length (all_components st) \<and>
         (\<forall>i < length (all_components st).
            all_connections st ! i =
              labels_of [''A;x$B;y'', ''C;z$A;w''] (all_components st ! i)) \<and>
         sum_list (map length (all_connections st)) = 2 * length [''A;x$B;y'', ''C;z$A;w''])"
proof -
  have w: "well_formed ''A;x$B;y''" "well_formed ''C;z$A;w''"
    by (simp_all add: well_formed_def)
  then have h: "\<forall>c \<in> set [''A;x$B;y'', ''C;z$A;w'']. well_formed c" by simp
  have f: "fields ''A;x$B;y'' = (''A'', ''x'', ''B'', ''y'')"
      "fields ''C;z$A;w'' = (''C'', ''z'', ''A'', ''w'')"
    by (simp_all add: fields_def before_def after_def)
  have e: "normalize [''A;x$B;y'', ''C;z$A;w''] =
     Inr \<lparr>all_components = [''A'', ''B'', ''C''],
          all_connections = [[''x/y'', ''z/w''], [''x/y''], [''z/w'']]\<rparr>"
    by code_simp
  have "set (names [''A;x$B;y'', ''C;z$A;w'']) = set [''A'', ''B'', ''C'']"
    by (auto simp: names_def f)
  moreover have "card (set [''A'', ''B'', ''C'']) = 3" by simp
  ultimately have k: "card (set (names [''A;x$B;y'', ''C;z$A;w''])) = 3" by simp
  have la: "labels_of [''A;x$B;y'', ''C;z$A;w''] ''A'' = [''x/y'', ''z/w'']"
    and lb: "labels_of [''A;x$B;y'', ''C;z$A;w''] ''B'' = [''x/y'']"
    and lc: "labels_of [''A;x$B;y'', ''C;z$A;w''] ''C'' = [''z/w'']"
    by (simp_all add: labels_of_def f)
  have t: "\<exists>st. normalize [''A;x$B;y'', ''C;z$A;w''] = Inr st \<and>
         distinct (all_components st) \<and>
         set (all_components st) = set (names [''A;x$B;y'', ''C;z$A;w'']) \<and>
         length (all_components st) = card (set (names [''A;x$B;y'', ''C;z$A;w''])) \<and>
         length (all_connections st) = length (all_components st) \<and>
         (\<forall>i < length (all_components st).
            all_connections st ! i =
              labels_of [''A;x$B;y'', ''C;z$A;w''] (all_components st ! i)) \<and>
         sum_list (map length (all_connections st)) = 2 * length [''A;x$B;y'', ''C;z$A;w'']"
    using components_distinct_labels_twice [OF h] by blast
  show ?thesis using w e k la lb lc t by blast
qed

text \<open>
  Claim C2. Indices are assigned in first-seen order, with no sorting: the components list
  holds exactly the referenced names, and a name with a smaller index has its first
  occurrence earlier in the document order of the names. At the input
  \<^verbatim>\<open>["A;x$B;y", "C;z$A;w"]\<close> the components are \<^verbatim>\<open>["A", "B", "C"]\<close> (the witness).
\<close>

theorem first_seen_index_order:
  assumes "\<forall>c \<in> set cs. well_formed c"
  shows "\<exists>st. normalize cs = Inr st \<and>
              all_components st = first_seen (names cs) \<and>
              set (all_components st) = set (names cs) \<and>
              (\<forall>i j. i < j \<and> j < length (all_components st) \<longrightarrow>
                 first_pos (names cs) (all_components st ! i) <
                 first_pos (names cs) (all_components st ! j))"
proof -
  let ?comps = "first_seen (names cs)"
  let ?st = "\<lparr>all_components = ?comps, all_connections = map (labels_of cs) ?comps\<rparr>"
  have n: "normalize cs = Inr ?st" by (rule normalize_closed [OF assms])
  have "sorted_wrt (\<lambda>a b. first_pos (names cs) a < first_pos (names cs) b) ?comps"
    by (rule first_seen_sorted)
  then have o: "\<forall>i j. i < j \<and> j < length ?comps \<longrightarrow>
      first_pos (names cs) (?comps ! i) < first_pos (names cs) (?comps ! j)"
    by (simp add: sorted_wrt_iff_nth_less)
  show ?thesis using n o by (simp add: set_first_seen)
qed

theorem first_seen_index_order_witness:
  "well_formed ''A;x$B;y'' \<and> well_formed ''C;z$A;w'' \<and>
   (\<exists>st. normalize [''A;x$B;y'', ''C;z$A;w''] = Inr st \<and>
         all_components st = [''A'', ''B'', ''C''])"
proof -
  have h: "\<forall>c \<in> set [''A;x$B;y'', ''C;z$A;w'']. well_formed c"
    by (simp add: well_formed_def)
  have f: "first_seen (names [''A;x$B;y'', ''C;z$A;w'']) = [''A'', ''B'', ''C'']"
    by (simp add: first_seen_def names_def fields_def before_def after_def)
  show ?thesis using h first_seen_index_order [OF h] f by auto
qed

text \<open>
  Claim C3. A self-loop connection, whose two endpoints name the same component instance
  \<open>a\<close>, registers \<open>a\<close> once (when it is new) and appends the pair-label twice to the one
  list of \<open>a\<close>, from any state with parallel lists. From the empty lists,
  \<^verbatim>\<open>["A;1$A;2"]\<close> gives components \<^verbatim>\<open>["A"]\<close> and connections \<^verbatim>\<open>[["1/2", "1/2"]]\<close> (the
  witness).
\<close>

theorem self_loop_appends_label_twice:
  assumes "length (all_connections st) = length (all_components st)"
    and "well_formed c" and "fields c = (a, l1, a, l2)"
  shows "process_connection st (JStr c) =
         Inr (let comps = (if a \<in> set (all_components st) then all_components st
                           else all_components st @ [a]);
                  conns = (if a \<in> set (all_components st) then all_connections st
                           else all_connections st @ [[]]);
                  i = first_pos comps a
              in \<lparr>all_components = comps,
                  all_connections =
                    conns[i := conns ! i @ [l1 @ ''/'' @ l2, l1 @ ''/'' @ l2]]\<rparr>)"
proof -
  define comps where "comps = (if a \<in> set (all_components st) then all_components st
                           else all_components st @ [a])"
  define conns where "conns = (if a \<in> set (all_components st) then all_connections st
                           else all_connections st @ [[]])"
  define i where "i = first_pos comps a"
  define l where "l = l1 @ ''/'' @ l2"
  have m: "a \<in> set comps" by (simp add: comps_def)
  have len: "length conns = length comps" using assms(1) by (simp add: comps_def conns_def)
  have r1: "register a st = \<lparr>all_components = comps, all_connections = conns\<rparr>"
    by (simp add: register_def comps_def conns_def)
  have r2: "register a \<lparr>all_components = comps, all_connections = conns\<rparr> =
            \<lparr>all_components = comps, all_connections = conns\<rparr>"
    using m by (simp add: register_def)
  have ix: "list_index comps a = Inr i" unfolding i_def by (rule list_index_first_pos [OF m])
  have il: "i < length conns" unfolding i_def len by (rule first_pos_less [OF m])
  have a1: "append_label a l \<lparr>all_components = comps, all_connections = conns\<rparr> =
            Inr \<lparr>all_components = comps, all_connections = conns[i := conns ! i @ [l]]\<rparr>"
    using ix il by (simp add: append_label_def append_at_def)
  have a2: "append_label a l \<lparr>all_components = comps, all_connections = conns[i := conns ! i @ [l]]\<rparr> =
            Inr \<lparr>all_components = comps, all_connections = conns[i := conns ! i @ [l, l]]\<rparr>"
    using ix il by (simp add: append_label_def append_at_def)
  have "add_connection st (a, l1, a, l2) =
        Inr \<lparr>all_components = comps, all_connections = conns[i := conns ! i @ [l, l]]\<rparr>"
    unfolding add_connection.simps Let_def r1 r2 l_def [symmetric] a1 sum.case a2 ..
  then show ?thesis
    unfolding process_connection.simps parse_connection_well_formed [OF assms(2)] assms(3)
      sum.case Let_def comps_def [symmetric] conns_def [symmetric] i_def [symmetric]
      l_def [symmetric] .
qed

theorem self_loop_appends_label_twice_witness:
  "length (all_connections init_state) = length (all_components init_state) \<and>
   well_formed ''A;1$A;2'' \<and>
   fields ''A;1$A;2'' = (''A'', ''1'', ''A'', ''2'') \<and>
   normalize [''A;1$A;2''] =
     Inr \<lparr>all_components = [''A''], all_connections = [[''1/2'', ''1/2'']]\<rparr>"
proof -
  have h1: "length (all_connections init_state) = length (all_components init_state)"
    by (simp add: init_state_def)
  have h2: "well_formed ''A;1$A;2''" by (simp add: well_formed_def)
  have h3: "fields ''A;1$A;2'' = (''A'', ''1'', ''A'', ''2'')"
    by (simp add: fields_def before_def after_def)
  have "process_connection init_state (JStr ''A;1$A;2'') =
        Inr \<lparr>all_components = [''A''], all_connections = [[''1/2'', ''1/2'']]\<rparr>"
    unfolding self_loop_appends_label_twice [OF h1 h2 h3]
    by (simp add: init_state_def first_pos_def)
  then have "normalize [''A;1$A;2''] =
     Inr \<lparr>all_components = [''A''], all_connections = [[''1/2'', ''1/2'']]\<rparr>"
    by (simp add: normalize_def del: process_connection.simps)
  with h1 h2 h3 show ?thesis by simp
qed

text \<open>
  Claim C4. A raw connections list with a malformed entry (an entry that does not have
  exactly one \<open>$\<close>, or a connection point that does not have exactly one \<open>;\<close>) makes the
  loop raise, and the function returns the single failure result of its handler: never
  a response with partly built lists.
\<close>

theorem malformed_entry_fails:
  assumes "\<exists>c \<in> set cs. \<not> well_formed c"
    and "map_of resp1 ''connections'' = Some (JArr (map JStr cs))"
  shows "normalize cs = Inl ValueError \<and>
         get_project_info_cohere (Inr (JObj resp1)) = Inl ValueError"
  using normalize_malformed [OF assms(1)] normalize_response_error [OF assms(2)] by simp

theorem malformed_entry_fails_witness:
  "\<not> well_formed ''A$B;y'' \<and>
   normalize [''A;x$B;y'', ''A$B;y''] = Inl ValueError \<and>
   get_project_info_cohere
     (Inr (JObj [(''name'', JStr ''Fan''),
                 (''connections'', JArr [JStr ''A;x$B;y'', JStr ''A$B;y'']),
                 (''components'', JArr [JStr ''A'', JStr ''B''])])) = Inl ValueError"
proof -
  have h: "\<not> well_formed ''A$B;y''" by (simp add: well_formed_def)
  then have e: "\<exists>c \<in> set [''A;x$B;y'', ''A$B;y'']. \<not> well_formed c" by simp
  have m: "map_of [(''name'', JStr ''Fan''),
                 (''connections'', JArr [JStr ''A;x$B;y'', JStr ''A$B;y'']),
                 (''components'', JArr [JStr ''A'', JStr ''B''])] ''connections'' =
           Some (JArr (map JStr [''A;x$B;y'', ''A$B;y'']))" by simp
  show ?thesis using h malformed_entry_fails [OF e m] by simp
qed

text \<open>
  Claim C5. The raw connections \<^verbatim>\<open>["Battery;+$Motor;+", "Battery;-$Motor;-"]\<close> give
  components \<^verbatim>\<open>["Battery", "Motor"]\<close> and connections
  \<^verbatim>\<open>[["+/+", "-/-"], ["+/+", "-/-"]]\<close>, in the loop and in the fields of the response the
  function returns; and the pair-label of a connection is the first connector label, a
  slash, and the second connector label, in the order of the string.
\<close>

theorem battery_motor_end_to_end:
  "normalize [''Battery;+$Motor;+'', ''Battery;-$Motor;-''] =
     Inr \<lparr>all_components = [''Battery'', ''Motor''],
          all_connections = [[''+/+'', ''-/-''], [''+/+'', ''-/-'']]\<rparr> \<and>
   (\<forall>resp1.
      map_of resp1 ''connections'' =
        Some (JArr [JStr ''Battery;+$Motor;+'', JStr ''Battery;-$Motor;-'']) \<longrightarrow>
      (\<exists>d. get_project_info_cohere (Inr (JObj resp1)) = Inr (JObj d) \<and>
           map_of d ''components'' = Some (JArr [JStr ''Battery'', JStr ''Motor'']) \<and>
           map_of d ''connections'' =
             Some (JArr [JArr [JStr ''+/+'', JStr ''-/-''], JArr [JStr ''+/+'', JStr ''-/-'']]))) \<and>
   (\<forall>n1 l1 n2 l2.
      plain n1 \<and> plain l1 \<and> plain n2 \<and> plain l2 \<and> n1 \<noteq> n2 \<longrightarrow>
      normalize [raw_connection n1 l1 n2 l2] =
        Inr \<lparr>all_components = [n1, n2],
             all_connections = [[l1 @ ''/'' @ l2], [l1 @ ''/'' @ l2]]\<rparr>)"
proof -
  have w: "\<forall>c \<in> set [''Battery;+$Motor;+'', ''Battery;-$Motor;-'']. well_formed c"
    by (simp add: well_formed_def)
  have f1: "fields ''Battery;+$Motor;+'' = (''Battery'', ''+'', ''Motor'', ''+'')"
    by (simp add: fields_def before_def after_def)
  have f2: "fields ''Battery;-$Motor;-'' = (''Battery'', ''-'', ''Motor'', ''-'')"
    by (simp add: fields_def before_def after_def)
  have n: "normalize [''Battery;+$Motor;+'', ''Battery;-$Motor;-''] =
     Inr \<lparr>all_components = [''Battery'', ''Motor''],
          all_connections = [[''+/+'', ''-/-''], [''+/+'', ''-/-'']]\<rparr>"
    unfolding normalize_closed [OF w]
    by (simp add: names_def labels_of_def f1 f2 first_seen_def)
  have p: "\<exists>d. get_project_info_cohere (Inr (JObj resp1)) = Inr (JObj d) \<and>
           map_of d ''components'' = Some (JArr [JStr ''Battery'', JStr ''Motor'']) \<and>
           map_of d ''connections'' =
             Some (JArr [JArr [JStr ''+/+'', JStr ''-/-''], JArr [JStr ''+/+'', JStr ''-/-'']])"
    if m: "map_of resp1 ''connections'' =
        Some (JArr [JStr ''Battery;+$Motor;+'', JStr ''Battery;-$Motor;-''])" for resp1
  proof -
    have m': "map_of resp1 ''connections'' =
        Some (JArr (map JStr [''Battery;+$Motor;+'', ''Battery;-$Motor;-'']))"
      using m by simp
    show ?thesis
      unfolding normalize_response_ok [OF m' n] by (simp add: map_of_dict_set)
  qed
  have g: "normalize [raw_connection n1 l1 n2 l2] =
        Inr \<lparr>all_components = [n1, n2],
             all_connections = [[l1 @ ''/'' @ l2], [l1 @ ''/'' @ l2]]\<rparr>"
    if "plain n1" "plain l1" "plain n2" "plain l2" "n1 \<noteq> n2" for n1 l1 n2 l2
    unfolding normalize_single [OF that(1-4)] using that(5) by (simp add: first_seen_def)
  show ?thesis using n p g by blast
qed

theorem battery_motor_end_to_end_witness:
  "get_project_info_cohere
     (Inr (JObj [(''name'', JStr ''Fan''),
                 (''connections'', JArr [JStr ''Battery;+$Motor;+'', JStr ''Battery;-$Motor;-'']),
                 (''code'', JStr ''run'')])) =
   Inr (JObj [(''name'', JStr ''Fan''),
              (''connections'',
                 JArr [JArr [JStr ''+/+'', JStr ''-/-''], JArr [JStr ''+/+'', JStr ''-/-'']]),
              (''code'', JStr ''run''),
              (''components'', JArr [JStr ''Battery'', JStr ''Motor''])]) \<and>
   plain ''A'' \<and> plain ''x'' \<and> plain ''B'' \<and> plain ''y'' \<and>
   normalize [''A;x$B;y''] =
     Inr \<lparr>all_components = [''A'', ''B''], all_connections = [[''x/y''], [''x/y'']]\<rparr>"
proof -
  have n: "normalize [''Battery;+$Motor;+'', ''Battery;-$Motor;-''] =
     Inr \<lparr>all_components = [''Battery'', ''Motor''],
          all_connections = [[''+/+'', ''-/-''], [''+/+'', ''-/-'']]\<rparr>"
    using battery_motor_end_to_end by blast
  have m: "map_of [(''name'', JStr ''Fan''),
                 (''connections'', JArr [JStr ''Battery;+$Motor;+'', JStr ''Battery;-$Motor;-'']),
                 (''code'', JStr ''run'')] ''connections'' =
        Some (JArr (map JStr [''Battery;+$Motor;+'', ''Battery;-$Motor;-'']))" by simp
  have e: "get_project_info_cohere
     (Inr (JObj [(''name'', JStr ''Fan''),
                 (''connections'', JArr [JStr ''Battery;+$Motor;+'', JStr ''Battery;-$Motor;-'']),
                 (''code'', JStr ''run'')])) =
   Inr (JObj [(''name'', JStr ''Fan''),
              (''connections'',
                 JArr [JArr [JStr ''+/+'', JStr ''-/-''], JArr [JStr ''+/+'', JStr ''-/-'']]),
              (''code'', JStr ''run''),
              (''components'', JArr [JStr ''Battery'', JStr ''Motor''])])"
    unfolding normalize_response_ok [OF m n] by simp
  have h: "plain ''A'' \<and> plain ''x'' \<and> plain ''B'' \<and> plain ''y'' \<and> ''A'' \<noteq> ''B''"
    by (simp add: plain_def)
  have "normalize [raw_connection ''A'' ''x'' ''B'' ''y''] =
     Inr \<lparr>all_components = [''A'', ''B''],
          all_connections = [[''x'' @ ''/'' @ ''y''], [''x'' @ ''/'' @ ''y'']]\<rparr>"
    using battery_motor_end_to_end h by blast
  then have a: "normalize [''A;x$B;y''] =
     Inr \<lparr>all_components = [''A'', ''B''], all_connections = [[''x/y''], [''x/y'']]\<rparr>"
    by (simp add: raw_connection_def)
  show ?thesis using e h a by simp
qed

text \<open>
  Claim C6. The two lists are parallel after every prefix of the raw connections and at
  the end: when the entries of a prefix \<open>xs\<close> are well formed, the loop reaches after \<open>xs\<close>
  a state whose connections list is as long as its components list, and whose entry \<open>i\<close>
  is the sequence of the pair-labels incident to component \<open>i\<close>, in the order the strings
  of \<open>xs\<close> were processed; the rest \<open>ys\<close> of the list is processed from that state. When
  \<open>xs\<close> is the whole list, the two fields of the returned object are these two lists.
\<close>

theorem lists_parallel_after_every_prefix:
  assumes "\<forall>c \<in> set xs. well_formed c"
  shows "\<exists>st. normalize xs = Inr st \<and>
              normalize (xs @ ys) = connections_loop st (map JStr ys) \<and>
              length (all_connections st) = length (all_components st) \<and>
              (\<forall>i < length (all_components st).
                 all_connections st ! i = labels_of xs (all_components st ! i)) \<and>
              (\<forall>resp1. map_of resp1 ''connections'' = Some (JArr (map JStr xs)) \<longrightarrow>
                 (\<exists>d. get_project_info_cohere (Inr (JObj resp1)) = Inr (JObj d) \<and>
                      map_of d ''components'' = Some (JArr (map JStr (all_components st))) \<and>
                      map_of d ''connections'' =
                        Some (JArr (map (\<lambda>ls. JArr (map JStr ls)) (all_connections st)))))"
proof -
  let ?comps = "first_seen (names xs)"
  let ?st = "\<lparr>all_components = ?comps, all_connections = map (labels_of xs) ?comps\<rparr>"
  have n: "normalize xs = Inr ?st" by (rule normalize_closed [OF assms])
  then have l: "connections_loop init_state (map JStr xs) = Inr ?st"
    by (simp add: normalize_def)
  have c: "normalize (xs @ ys) = connections_loop ?st (map JStr ys)"
    by (simp add: normalize_def connections_loop_append l)
  have p: "\<exists>d. get_project_info_cohere (Inr (JObj resp1)) = Inr (JObj d) \<and>
        map_of d ''components'' = Some (JArr (map JStr (all_components ?st))) \<and>
        map_of d ''connections'' =
          Some (JArr (map (\<lambda>ls. JArr (map JStr ls)) (all_connections ?st)))"
    if m: "map_of resp1 ''connections'' = Some (JArr (map JStr xs))" for resp1
    unfolding normalize_response_ok [OF m n] by (simp add: map_of_dict_set)
  have q: "length (all_connections ?st) = length (all_components ?st) \<and>
      (\<forall>i < length (all_components ?st).
         all_connections ?st ! i = labels_of xs (all_components ?st ! i))"
    by simp
  show ?thesis using n c p q by blast
qed

theorem lists_parallel_after_every_prefix_witness:
  "well_formed ''A;x$B;y'' \<and> well_formed ''C;z$A;w'' \<and>
   (\<exists>st. normalize [''A;x$B;y'', ''C;z$A;w''] = Inr st \<and>
         normalize ([''A;x$B;y'', ''C;z$A;w''] @ [''B;u$C;v'']) =
           connections_loop st (map JStr [''B;u$C;v'']) \<and>
         length (all_connections st) = length (all_components st) \<and>
         st = \<lparr>all_components = [''A'', ''B'', ''C''],
               all_connections = [[''x/y'', ''z/w''], [''x/y''], [''z/w'']]\<rparr>)"
proof -
  have h: "\<forall>c \<in> set [''A;x$B;y'', ''C;z$A;w'']. well_formed c"
    by (simp add: well_formed_def)
  have e: "normalize [''A;x$B;y'', ''C;z$A;w''] =
      Inr \<lparr>all_components = [''A'', ''B'', ''C''],
               all_connections = [[''x/y'', ''z/w''], [''x/y''], [''z/w'']]\<rparr>"
    by code_simp
  show ?thesis
    using h lists_parallel_after_every_prefix [OF h, of "[''B;u$C;v'']"] e by auto
qed

text \<open>
  Claim C7. Duplicate raw connection strings are not deduplicated: the list of an endpoint
  is the concatenation, over every entry of the raw list, copies included, of the labels
  the entry contributes to that endpoint. So when a well-formed list holds \<open>k\<close> copies of
  a string, each copy appends its pair-label to the list of each of its endpoints, and
  each endpoint's list holds the pair-label at least \<open>k\<close> times (more when other entries,
  or the other end of a self-loop, give the same label).
\<close>

theorem duplicates_not_deduplicated:
  assumes "\<forall>x \<in> set cs. well_formed x"
    and "c \<in> set cs" and "fields c = (n1, l1, n2, l2)" and "a = n1 \<or> a = n2"
  shows "\<exists>st i. normalize cs = Inr st \<and>
                i < length (all_components st) \<and> all_components st ! i = a \<and>
                i < length (all_connections st) \<and>
                all_connections st ! i = concat (map (\<lambda>x. incident a (fields x)) cs) \<and>
                l1 @ ''/'' @ l2 \<in> set (incident a (fields c)) \<and>
                count_list cs c \<le> count_list (all_connections st ! i) (l1 @ ''/'' @ l2)"
proof -
  let ?comps = "first_seen (names cs)"
  let ?st = "\<lparr>all_components = ?comps, all_connections = map (labels_of cs) ?comps\<rparr>"
  have n: "normalize cs = Inr ?st" by (rule normalize_closed [OF assms(1)])
  have "set (endpoints (fields c)) \<subseteq> set (names cs)"
    using assms(2) by (auto simp: names_def)
  then have "a \<in> set ?comps" using assms(3,4) by (auto simp: set_first_seen)
  then obtain i where i: "i < length ?comps" "?comps ! i = a"
    by (auto simp: in_set_conv_nth)
  have m: "l1 @ ''/'' @ l2 \<in> set (incident a (fields c))" using assms(3,4) by auto
  then have "count_list cs c \<le> count_list (labels_of cs a) (l1 @ ''/'' @ l2)"
    by (rule count_labels_of_ge)
  moreover have "labels_of cs a = concat (map (\<lambda>x. incident a (fields x)) cs)"
    by (simp add: labels_of_def)
  ultimately show ?thesis using n i m by auto
qed

theorem duplicates_not_deduplicated_witness:
  "well_formed ''A;x$B;y'' \<and>
   fields ''A;x$B;y'' = (''A'', ''x'', ''B'', ''y'') \<and>
   count_list [''A;x$B;y'', ''A;x$B;y'', ''A;x$B;y''] ''A;x$B;y'' = 3 \<and>
   normalize [''A;x$B;y'', ''A;x$B;y'', ''A;x$B;y''] =
     Inr \<lparr>all_components = [''A'', ''B''],
          all_connections = [[''x/y'', ''x/y'', ''x/y''], [''x/y'', ''x/y'', ''x/y'']]\<rparr> \<and>
   (\<exists>st i. normalize [''A;x$B;y'', ''A;x$B;y'', ''A;x$B;y''] = Inr st \<and>
           i < length (all_components st) \<and> all_components st ! i = ''B'' \<and>
           i < length (all_connections st) \<and>
           3 \<le> count_list (all_connections st ! i) ''x/y'')"
proof -
  have w: "well_formed ''A;x$B;y''" by (simp add: well_formed_def)
  then have h: "\<forall>x \<in> set [''A;x$B;y'', ''A;x$B;y'', ''A;x$B;y'']. well_formed x" by simp
  have f: "fields ''A;x$B;y'' = (''A'', ''x'', ''B'', ''y'')"
    by (simp add: fields_def before_def after_def)
  have k: "count_list [''A;x$B;y'', ''A;x$B;y'', ''A;x$B;y''] ''A;x$B;y'' = 3" by simp
  have e: "normalize [''A;x$B;y'', ''A;x$B;y'', ''A;x$B;y''] =
     Inr \<lparr>all_components = [''A'', ''B''],
          all_connections = [[''x/y'', ''x/y'', ''x/y''], [''x/y'', ''x/y'', ''x/y'']]\<rparr>"
    by code_simp
  have "\<exists>st i. normalize [''A;x$B;y'', ''A;x$B;y'', ''A;x$B;y''] = Inr st \<and>
           i < length (all_components st) \<and> all_components st ! i = ''B'' \<and>
           i < length (all_connections st) \<and>
           all_connections st ! i =
             concat (map (\<lambda>x. incident ''B'' (fields x)) [''A;x$B;y'', ''A;x$B;y'', ''A;x$B;y'']) \<and>
           ''x'' @ ''/'' @ ''y'' \<in> set (incident ''B'' (fields ''A;x$B;y'')) \<and>
           count_list [''A;x$B;y'', ''A;x$B;y'', ''A;x$B;y''] ''A;x$B;y''
             \<le> count_list (all_connections st ! i) (''x'' @ ''/'' @ ''y'')"
    by (rule duplicates_not_deduplicated [OF h _ f]) simp_all
  then have "\<exists>st i. normalize [''A;x$B;y'', ''A;x$B;y'', ''A;x$B;y''] = Inr st \<and>
           i < length (all_components st) \<and> all_components st ! i = ''B'' \<and>
           i < length (all_connections st) \<and>
           3 \<le> count_list (all_connections st ! i) ''x/y''"
    unfolding k by auto
  with w f k e show ?thesis by blast
qed

text \<open>
  Claim C8. On a response whose raw connections are well formed, the function replaces
  the components and connections fields only: every other key of the returned object has
  the value it had in the parsed response, and the other entries keep their order.
\<close>

theorem other_fields_unchanged:
  assumes "\<forall>c \<in> set cs. well_formed c"
    and "map_of resp1 ''connections'' = Some (JArr (map JStr cs))"
  shows "\<exists>d. get_project_info_cohere (Inr (JObj resp1)) = Inr (JObj d) \<and>
             (\<forall>k. k \<noteq> ''connections'' \<and> k \<noteq> ''components'' \<longrightarrow> map_of d k = map_of resp1 k) \<and>
             filter (\<lambda>p. fst p \<noteq> ''connections'' \<and> fst p \<noteq> ''components'') d =
             filter (\<lambda>p. fst p \<noteq> ''connections'' \<and> fst p \<noteq> ''components'') resp1"
proof -
  obtain st where n: "normalize cs = Inr st" using normalize_closed [OF assms(1)] by blast
  let ?d1 = "dict_set ''connections''
      (JArr (map (\<lambda>ls. JArr (map JStr ls)) (all_connections st))) resp1"
  let ?d = "dict_set ''components'' (JArr (map JStr (all_components st))) ?d1"
  let ?P = "\<lambda>p::string \<times> json. fst p \<noteq> ''connections'' \<and> fst p \<noteq> ''components''"
  have r: "get_project_info_cohere (Inr (JObj resp1)) = Inr (JObj ?d)"
    by (rule normalize_response_ok [OF assms(2) n])
  have m: "\<forall>k. k \<noteq> ''connections'' \<and> k \<noteq> ''components'' \<longrightarrow> map_of ?d k = map_of resp1 k"
    by (simp add: map_of_dict_set)
  have "filter ?P ?d = filter ?P ?d1" by (rule filter_dict_set) simp
  also have "\<dots> = filter ?P resp1" by (rule filter_dict_set) simp
  finally show ?thesis using r m by blast
qed

theorem other_fields_unchanged_witness:
  "well_formed ''A;x$B;y'' \<and>
   get_project_info_cohere
     (Inr (JObj [(''name'', JStr ''Fan''), (''description'', JStr ''d''),
                 (''instruction'', JArr [JStr ''s1'', JStr ''s2'']),
                 (''connections'', JArr [JStr ''A;x$B;y'']),
                 (''components'', JArr [JStr ''Z'']),
                 (''code'', JStr ''run''), (''extra'', JInt 7)])) =
   Inr (JObj [(''name'', JStr ''Fan''), (''description'', JStr ''d''),
              (''instruction'', JArr [JStr ''s1'', JStr ''s2'']),
              (''connections'', JArr [JArr [JStr ''x/y''], JArr [JStr ''x/y'']]),
              (''components'', JArr [JStr ''A'', JStr ''B'']),
              (''code'', JStr ''run''), (''extra'', JInt 7)])"
proof -
  let ?resp = "[(''name'', JStr ''Fan''), (''description'', JStr ''d''),
                 (''instruction'', JArr [JStr ''s1'', JStr ''s2'']),
                 (''connections'', JArr [JStr ''A;x$B;y'']),
                 (''components'', JArr [JStr ''Z'']),
                 (''code'', JStr ''run''), (''extra'', JInt 7)]"
  have w: "well_formed ''A;x$B;y''" by (simp add: well_formed_def)
  then have h: "\<forall>c \<in> set [''A;x$B;y'']. well_formed c" by simp
  have m: "map_of ?resp ''connections'' = Some (JArr (map JStr [''A;x$B;y'']))" by simp
  obtain d where d: "get_project_info_cohere (Inr (JObj ?resp)) = Inr (JObj d)"
    using other_fields_unchanged [OF h m] by blast
  have e: "normalize [''A;x$B;y''] =
      Inr \<lparr>all_components = [''A'', ''B''], all_connections = [[''x/y''], [''x/y'']]\<rparr>"
    by code_simp
  have "get_project_info_cohere (Inr (JObj ?resp)) =
   Inr (JObj [(''name'', JStr ''Fan''), (''description'', JStr ''d''),
              (''instruction'', JArr [JStr ''s1'', JStr ''s2'']),
              (''connections'', JArr [JArr [JStr ''x/y''], JArr [JStr ''x/y'']]),
              (''components'', JArr [JStr ''A'', JStr ''B'']),
              (''code'', JStr ''run''), (''extra'', JInt 7)])"
    unfolding normalize_response_ok [OF m e] by simp
  with w d show ?thesis by simp
qed

text \<open>
  Claim C9. The components field of the returned object is derived from the connection
  strings alone: whatever the parsed response had under \<^verbatim>\<open>components\<close>, the function
  returns there the names of the loop, which are exactly the names that occur in a
  connection, so a name that occurs in none is absent; with no raw connections both
  fields are the empty list.
\<close>

theorem components_overwritten_from_connections:
  assumes "\<forall>c \<in> set cs. well_formed c"
    and "map_of resp1 ''connections'' = Some (JArr (map JStr cs))"
  shows "\<exists>d st. get_project_info_cohere (Inr (JObj resp1)) = Inr (JObj d) \<and>
               normalize cs = Inr st \<and>
               map_of d ''components'' = Some (JArr (map JStr (all_components st))) \<and>
               map_of d ''connections'' =
                 Some (JArr (map (\<lambda>ls. JArr (map JStr ls)) (all_connections st))) \<and>
               set (all_components st) = set (names cs) \<and>
               (cs = [] \<longrightarrow> map_of d ''components'' = Some (JArr []) \<and>
                              map_of d ''connections'' = Some (JArr []))"
proof -
  let ?comps = "first_seen (names cs)"
  let ?st = "\<lparr>all_components = ?comps, all_connections = map (labels_of cs) ?comps\<rparr>"
  have n: "normalize cs = Inr ?st" by (rule normalize_closed [OF assms(1)])
  let ?d = "dict_set ''components'' (JArr (map JStr (all_components ?st)))
      (dict_set ''connections''
        (JArr (map (\<lambda>ls. JArr (map JStr ls)) (all_connections ?st))) resp1)"
  have r: "get_project_info_cohere (Inr (JObj resp1)) = Inr (JObj ?d)"
    by (rule normalize_response_ok [OF assms(2) n])
  have c: "map_of ?d ''components'' = Some (JArr (map JStr (all_components ?st)))"
    by (simp add: map_of_dict_set)
  have k: "map_of ?d ''connections'' =
      Some (JArr (map (\<lambda>ls. JArr (map JStr ls)) (all_connections ?st)))"
    by (simp add: map_of_dict_set)
  have s: "set (all_components ?st) = set (names cs)" by (simp add: set_first_seen)
  have e: "cs = [] \<longrightarrow> map_of ?d ''components'' = Some (JArr []) \<and>
                              map_of ?d ''connections'' = Some (JArr [])"
    by (simp add: map_of_dict_set names_def first_seen_def)
  show ?thesis using r n c k s e by blast
qed

theorem components_overwritten_from_connections_witness:
  "get_project_info_cohere
     (Inr (JObj [(''name'', JStr ''Fan''),
                 (''components'', JArr [JStr ''Arduino Nano'', JStr ''DC Motor'']),
                 (''connections'', JArr [])])) =
   Inr (JObj [(''name'', JStr ''Fan''), (''components'', JArr []), (''connections'', JArr [])]) \<and>
   well_formed ''A;x$B;y'' \<and>
   (\<exists>d. get_project_info_cohere
          (Inr (JObj [(''components'', JArr [JStr ''A'', JStr ''B'', JStr ''Spare'']),
                      (''connections'', JArr [JStr ''A;x$B;y''])])) = Inr (JObj d) \<and>
        map_of d ''components'' = Some (JArr [JStr ''A'', JStr ''B'']))"
proof -
  let ?r0 = "[(''name'', JStr ''Fan''),
                 (''components'', JArr [JStr ''Arduino Nano'', JStr ''DC Motor'']),
                 (''connections'', JArr [])]"
  have h0: "\<forall>c \<in> set ([]::string list). well_formed c" by simp
  have m0: "map_of ?r0 ''connections'' = Some (JArr (map JStr []))" by simp
  have n0: "normalize [] = Inr \<lparr>all_components = [], all_connections = []\<rparr>"
    by (simp add: normalize_def init_state_def)
  have e0: "get_project_info_cohere (Inr (JObj ?r0)) =
     Inr (JObj [(''name'', JStr ''Fan''), (''components'', JArr []), (''connections'', JArr [])])"
    unfolding normalize_response_ok [OF m0 n0] by simp
  let ?r1 = "[(''components'', JArr [JStr ''A'', JStr ''B'', JStr ''Spare'']),
                      (''connections'', JArr [JStr ''A;x$B;y''])]"
  have w: "well_formed ''A;x$B;y''" by (simp add: well_formed_def)
  then have h1: "\<forall>c \<in> set [''A;x$B;y'']. well_formed c" by simp
  have m1: "map_of ?r1 ''connections'' = Some (JArr (map JStr [''A;x$B;y'']))" by simp
  have n1: "normalize [''A;x$B;y''] =
      Inr \<lparr>all_components = [''A'', ''B''], all_connections = [[''x/y''], [''x/y'']]\<rparr>"
    by code_simp
  have "\<exists>d. get_project_info_cohere (Inr (JObj ?r1)) = Inr (JObj d) \<and>
        map_of d ''components'' = Some (JArr [JStr ''A'', JStr ''B''])"
    using components_overwritten_from_connections [OF h1 m1] n1 by auto
  with e0 w show ?thesis by simp
qed

text \<open>
  Claim C10. The parser does not ask the parts between the delimiters to be non-empty:
  the empty string is a plain part, and a raw connection built from any four plain
  parts, empty ones included, parses into these parts and is normalized without a
  failure, its names registered and its connector labels used in the pair-label. The
  witness evaluates \<^verbatim>\<open>";x$B;y"\<close> and \<^verbatim>\<open>"A;$B;y"\<close>.
\<close>

theorem empty_parts_accepted:
  assumes "plain n1" and "plain l1" and "plain n2" and "plain l2"
  shows "plain [] \<and>
         well_formed (raw_connection n1 l1 n2 l2) \<and>
         parse_connection (raw_connection n1 l1 n2 l2) = Inr (n1, l1, n2, l2) \<and>
         (\<exists>st. normalize [raw_connection n1 l1 n2 l2] = Inr st \<and>
               set (all_components st) = {n1, n2} \<and>
               length (all_connections st) = length (all_components st) \<and>
               (\<forall>ls \<in> set (all_connections st). l1 @ ''/'' @ l2 \<in> set ls))"
proof -
  have w: "well_formed (raw_connection n1 l1 n2 l2)"
    by (rule well_formed_raw_connection [OF assms])
  have p: "parse_connection (raw_connection n1 l1 n2 l2) = Inr (n1, l1, n2, l2)"
    using parse_connection_well_formed [OF w] by (simp add: fields_raw_connection [OF assms])
  let ?st = "\<lparr>all_components = first_seen [n1, n2],
              all_connections = map (\<lambda>a. incident a (n1, l1, n2, l2)) (first_seen [n1, n2])\<rparr>"
  have n: "normalize [raw_connection n1 l1 n2 l2] = Inr ?st"
    by (rule normalize_single [OF assms])
  have s: "set (all_components ?st) = {n1, n2}" by (simp add: set_first_seen)
  have a: "\<forall>ls \<in> set (all_connections ?st). l1 @ ''/'' @ l2 \<in> set ls"
    by (auto simp: set_first_seen)
  have "plain []" by (simp add: plain_def)
  then show ?thesis using w p n s a by (intro conjI exI [of _ ?st]) simp_all
qed

theorem empty_parts_accepted_witness:
  "plain [] \<and> plain ''x'' \<and> plain ''B'' \<and> plain ''y'' \<and> plain ''A'' \<and>
   parse_connection '';x$B;y'' = Inr ([], ''x'', ''B'', ''y'') \<and>
   parse_connection ''A;$B;y'' = Inr (''A'', [], ''B'', ''y'') \<and>
   normalize ['';x$B;y''] =
     Inr \<lparr>all_components = [[], ''B''], all_connections = [[''x/y''], [''x/y'']]\<rparr> \<and>
   normalize [''A;$B;y''] =
     Inr \<lparr>all_components = [''A'', ''B''], all_connections = [[''/y''], [''/y'']]\<rparr>"
proof -
  have h: "plain []" "plain ''x''" "plain ''B''" "plain ''y''" "plain ''A''"
    by (simp_all add: plain_def)
  have p1: "parse_connection '';x$B;y'' = Inr ([], ''x'', ''B'', ''y'')"
    using empty_parts_accepted [OF h(1) h(2) h(3) h(4)] by (simp add: raw_connection_def)
  have p2: "parse_connection ''A;$B;y'' = Inr (''A'', [], ''B'', ''y'')"
    using empty_parts_accepted [OF h(5) h(1) h(3) h(4)] by (simp add: raw_connection_def)
  have n1: "normalize ['';x$B;y''] =
     Inr \<lparr>all_components = [[], ''B''], all_connections = [[''x/y''], [''x/y'']]\<rparr>"
    by code_simp
  have n2: "normalize [''A;$B;y''] =
     Inr \<lparr>all_components = [''A'', ''B''], all_connections = [[''/y''], [''/y'']]\<rparr>"
    by code_simp
  show ?thesis using h p1 p2 n1 n2 by simp
qed

end
